theory Spec2Isabelle
  imports Complex_Main "HOL-Library.Log_Nat"
begin

section \<open>Note events\<close>

text \<open>
  A note event is the dictionary built in \<^verbatim>\<open>SimplePianoTranscriber.transcribe\<close> and read
  back from JSON in \<^verbatim>\<open>analyze_model_agreement\<close>. In the transcription, times and decibel
  values are exact rationals. In the agreement score an onset time is the decimal number
  written in the JSON file (the wrappers write it with \<^verbatim>\<open>float(...)\<close>); the score reads
  it as a double and computes with doubles.
\<close>

datatype error = IndexError | ZeroDivisionError

record note_event =
  pitch_midi :: int
  onset_time_s :: rat
  offset_time_s :: rat
  velocity :: int
  confidence :: rat

section \<open>Model agreement (compare_models.py, analyze_model_agreement)\<close>

subsection \<open>Double precision\<close>

text \<open>
  A finite double is the rational it stands for. Rounding is to the nearest double, a tie
  to the one with an even mantissa: 53 bits of mantissa, the smallest step
  \<open>2\<^sup>-\<^sup>1\<^sup>0\<^sup>7\<^sup>4\<close>, and an infinity when the rounded value reaches
  \<open>2\<^sup>1\<^sup>0\<^sup>2\<^sup>4\<close>. The tokens for infinities and for not-a-number are not
  numbers of the input.
\<close>

definition pow2 :: "int \<Rightarrow> rat" where
  "pow2 e = (if 0 \<le> e then 2 ^ nat e else 1 / 2 ^ nat (- e))"

definition round_half_even :: "rat \<Rightarrow> int" where
  "round_half_even x =
     (let f = \<lfloor>x\<rfloor>; r = x - of_int f
      in if r < 1 / 2 then f else if 1 / 2 < r then f + 1 else if even f then f else f + 1)"

text \<open>The exponent \<open>e\<close> with \<open>2\<^sup>e \<le> |x| < 2\<^sup>e\<^sup>+\<^sup>1\<close>, for \<open>x\<close> other than 0.\<close>

definition binade :: "rat \<Rightarrow> int" where
  "binade x =
     (case quotient_of \<bar>x\<bar> of
        (n, m) \<Rightarrow> (let k = bitlen n - bitlen m in if pow2 k \<le> \<bar>x\<bar> then k else k - 1))"

definition round_double :: "rat \<Rightarrow> rat" where
  "round_double x =
     (if x = 0 then 0
      else (let q = max (binade x - 52) (- 1074)
            in of_int (round_half_even (x / pow2 q)) * pow2 q))"

text \<open>
  The double of an exact value; \<open>None\<close> is an infinity (the exponent of the rounded
  value is 1024 or more).
\<close>

definition to_double :: "rat \<Rightarrow> rat option" where
  "to_double x =
     (let r = round_double x in if r \<noteq> 0 \<and> 1024 \<le> binade r then None else Some r)"

text \<open>
  \<^verbatim>\<open>abs(n1["onset_time_s"] - n2["onset_time_s"]) <= 0.05\<close>: both onsets are read as
  doubles, the difference is rounded to a double, and the bound is the double of the
  literal. The comparison is false when the difference is an infinity or not a number.
\<close>

definition onsets_within_tolerance :: "rat \<Rightarrow> rat \<Rightarrow> bool" where
  "onsets_within_tolerance on1 on2 =
     (case to_double on1 of
        None \<Rightarrow> False
      | Some x \<Rightarrow>
          (case to_double on2 of
             None \<Rightarrow> False
           | Some y \<Rightarrow>
               (case to_double (x - y) of
                  None \<Rightarrow> False
                | Some d \<Rightarrow> \<bar>d\<bar> \<le> round_double (5 / 100))))"

text \<open>The condition of the inner \<^verbatim>\<open>if\<close>: one semitone and 50 ms.\<close>

definition note_matches :: "note_event \<Rightarrow> note_event \<Rightarrow> bool" where
  "note_matches n1 n2 \<longleftrightarrow>
     \<bar>pitch_midi n1 - pitch_midi n2\<bar> \<le> 1 \<and>
     onsets_within_tolerance (onset_time_s n1) (onset_time_s n2)"

text \<open>
  The inner loop \<^verbatim>\<open>for n2 in notes2\<close>: the counter is incremented at the first
  note that matches and the loop is left (\<^verbatim>\<open>break\<close>).
\<close>

fun scan_notes2 :: "note_event \<Rightarrow> note_event list \<Rightarrow> nat \<Rightarrow> nat" where
  "scan_notes2 n1 [] matches = matches"
| "scan_notes2 n1 (n2 # rest) matches =
     (if note_matches n1 n2 then matches + 1 else scan_notes2 n1 rest matches)"

text \<open>The outer loop \<^verbatim>\<open>for n1 in notes1\<close>, threading the counter.\<close>

fun count_loop :: "note_event list \<Rightarrow> note_event list \<Rightarrow> nat \<Rightarrow> nat" where
  "count_loop [] notes2 matches = matches"
| "count_loop (n1 # rest) notes2 matches =
     count_loop rest notes2 (scan_notes2 n1 notes2 matches)"

definition count_matches :: "note_event list \<Rightarrow> note_event list \<Rightarrow> nat" where
  "count_matches notes1 notes2 = count_loop notes1 notes2 0"

text \<open>Python's \<^verbatim>\<open>/\<close> on two integers: it raises on a zero divisor.\<close>

definition truediv :: "nat \<Rightarrow> nat \<Rightarrow> error + rat" where
  "truediv x y = (if y = 0 then Inl ZeroDivisionError else Inr (of_nat x / of_nat y))"

text \<open>
  \<^verbatim>\<open>agreement = matches / max(len(notes1), len(notes2)) if notes1 or notes2 else 0\<close>
\<close>

definition agreement :: "note_event list \<Rightarrow> note_event list \<Rightarrow> error + rat" where
  "agreement notes1 notes2 =
     (if notes1 \<noteq> [] \<or> notes2 \<noteq> []
      then truediv (count_matches notes1 notes2) (max (length notes1) (length notes2))
      else Inr 0)"

text \<open>
  A note as the wrappers write it to JSON, given by pitch, onset and offset; velocity and
  confidence take the defaults of \<^verbatim>\<open>to_standard_format\<close>.
\<close>

definition json_note :: "int \<Rightarrow> rat \<Rightarrow> rat \<Rightarrow> note_event" where
  "json_note p on off =
     \<lparr>pitch_midi = p, onset_time_s = on, offset_time_s = off, velocity = 64, confidence = 1 / 2\<rparr>"

section \<open>Spectral peaks (scipy.signal.find_peaks, as called by transcribe)\<close>

text \<open>
  \<^verbatim>\<open>find_peaks(spectrum, height=-40, distance=2)\<close> is a library call. The model follows
  the library's three stages: the local maxima of the column (the middle of a plateau,
  never the first or the last sample), the height condition, and the distance condition
  that visits peaks from the highest to the lowest and drops the neighbours closer than
  the distance. Each stage masks the array of peaks, so the peaks stay in index order.
\<close>

text \<open>\<^verbatim>\<open>while i_ahead < i_max and x[i_ahead] == x[i]: i_ahead += 1\<close>\<close>

function plateau_end :: "rat list \<Rightarrow> nat \<Rightarrow> nat \<Rightarrow> nat" where
  "plateau_end x i i_ahead =
     (if i_ahead < length x - 1 \<and> x ! i_ahead = x ! i
      then plateau_end x i (i_ahead + 1) else i_ahead)"
  by pat_completeness auto
termination
  by (relation "measure (\<lambda>(x, i, i_ahead). length x - 1 - i_ahead)") auto

declare plateau_end.simps [simp del]

lemma plateau_end_ge: "i_ahead \<le> plateau_end x i i_ahead"
proof (induction x i i_ahead rule: plateau_end.induct)
  case (1 x i i_ahead)
  show ?case
  proof (cases "i_ahead < length x - 1 \<and> x ! i_ahead = x ! i")
    case True
    with "1.IH" have "i_ahead + 1 \<le> plateau_end x i (i_ahead + 1)" by simp
    moreover from True have "plateau_end x i i_ahead = plateau_end x i (i_ahead + 1)"
      by (subst plateau_end.simps) simp
    ultimately show ?thesis by simp
  next
    case False
    then have "plateau_end x i i_ahead = i_ahead"
      by (subst plateau_end.simps) auto
    then show ?thesis by simp
  qed
qed

text \<open>
  The scan for local maxima, from sample \<open>i\<close> on (the library starts it at 1 and stops
  before the last sample).
\<close>

function local_maxima_from :: "rat list \<Rightarrow> nat \<Rightarrow> nat list" where
  "local_maxima_from x i =
     (if i < length x - 1 then
        (if x ! (i - 1) < x ! i then
           (if x ! (plateau_end x i (i + 1)) < x ! i
            then ((i + (plateau_end x i (i + 1) - 1)) div 2)
                   # local_maxima_from x (plateau_end x i (i + 1) + 1)
            else local_maxima_from x (i + 1))
         else local_maxima_from x (i + 1))
      else [])"
  by pat_completeness auto
termination
proof (relation "measure (\<lambda>(x, i). length x - 1 - i)")
  show "wf (measure (\<lambda>(x, i). length x - 1 - i))" by simp
next
  fix x :: "rat list" and i :: nat
  assume "i < length x - 1"
  moreover have "i + 1 \<le> plateau_end x i (i + 1)" by (rule plateau_end_ge)
  ultimately show "((x, plateau_end x i (i + 1) + 1), (x, i)) \<in> measure (\<lambda>(x, i). length x - 1 - i)"
    by simp
qed auto

declare local_maxima_from.simps [simp del]

definition local_maxima_1d :: "rat list \<Rightarrow> nat list" where
  "local_maxima_1d x = local_maxima_from x 1"

text \<open>Indexing an array with a boolean array: \<^verbatim>\<open>peaks[keep]\<close>.\<close>

fun bool_index :: "'a list \<Rightarrow> bool list \<Rightarrow> 'a list" where
  "bool_index (x # xs) (k # ks) = (if k then x # bool_index xs ks else bool_index xs ks)"
| "bool_index _ _ = []"

text \<open>\<^verbatim>\<open>np.argsort(priority)\<close>, taken stable.\<close>

definition argsort :: "rat list \<Rightarrow> nat list" where
  "argsort priority = sort_key (\<lambda>j. priority ! j) [0..<length priority]"

text \<open>
  \<^verbatim>\<open>k = j - 1; while 0 <= k and peaks[j] - peaks[k] < distance: keep[k] = 0; k -= 1\<close>
  The last argument is \<open>k + 1\<close>.
\<close>

fun flag_earlier :: "nat list \<Rightarrow> nat \<Rightarrow> nat \<Rightarrow> bool list \<Rightarrow> nat \<Rightarrow> bool list" where
  "flag_earlier peaks j distance keep 0 = keep"
| "flag_earlier peaks j distance keep (Suc k) =
     (if int (peaks ! j) - int (peaks ! k) < int distance
      then flag_earlier peaks j distance (keep[k := False]) k else keep)"

text \<open>
  \<^verbatim>\<open>k = j + 1; while k < peaks_size and peaks[k] - peaks[j] < distance: keep[k] = 0; k += 1\<close>
\<close>

function flag_later :: "nat list \<Rightarrow> nat \<Rightarrow> nat \<Rightarrow> bool list \<Rightarrow> nat \<Rightarrow> bool list" where
  "flag_later peaks j distance keep k =
     (if k < length peaks \<and> int (peaks ! k) - int (peaks ! j) < int distance
      then flag_later peaks j distance (keep[k := False]) (k + 1) else keep)"
  by pat_completeness auto
termination
  by (relation "measure (\<lambda>(peaks, j, distance, keep, k). length peaks - k)") auto

declare flag_later.simps [simp del]

text \<open>One round of the priority loop: a peak already dropped is skipped.\<close>

definition select_step :: "nat list \<Rightarrow> nat \<Rightarrow> bool list \<Rightarrow> nat \<Rightarrow> bool list" where
  "select_step peaks distance keep j =
     (if keep ! j
      then flag_later peaks j distance (flag_earlier peaks j distance keep j) (j + 1)
      else keep)"

definition select_by_peak_distance :: "nat list \<Rightarrow> rat list \<Rightarrow> nat \<Rightarrow> bool list" where
  "select_by_peak_distance peaks priority distance =
     foldl (select_step peaks distance) (replicate (length peaks) True) (rev (argsort priority))"

text \<open>The result is the pair of the peaks and of \<^verbatim>\<open>properties['peak_heights']\<close>.\<close>

definition find_peaks :: "rat list \<Rightarrow> rat \<Rightarrow> nat \<Rightarrow> nat list \<times> rat list" where
  "find_peaks x height distance =
     (let peaks = local_maxima_1d x;
          peak_heights = map (\<lambda>p. x ! p) peaks;
          keep = map (\<lambda>h. height \<le> h) peak_heights;
          peaks = bool_index peaks keep;
          peak_heights = bool_index peak_heights keep;
          keep = select_by_peak_distance peaks (map (\<lambda>p. x ! p) peaks) distance
      in (bool_index peaks keep, bool_index peak_heights keep))"

section \<open>Transcription (simple_transcriber.py, SimplePianoTranscriber)\<close>

record transcriber =
  sample_rate :: int
  hop_length :: int
  frame_rate :: rat

text \<open>\<^verbatim>\<open>__init__\<close>: the frame rate is a true division, which raises on a zero hop length.\<close>

definition init_transcriber :: "int \<Rightarrow> int \<Rightarrow> error + transcriber" where
  "init_transcriber sr hop =
     (if hop = 0 then Inl ZeroDivisionError
      else Inr \<lparr>sample_rate = sr, hop_length = hop, frame_rate = of_int sr / of_int hop\<rparr>)"

text \<open>\<^verbatim>\<open>SimplePianoTranscriber()\<close>, with the default arguments 22050 and 512.\<close>

definition default_transcriber :: transcriber where
  "default_transcriber =
     \<lparr>sample_rate = 22050, hop_length = 512, frame_rate = 22050 / 512\<rparr>"

text \<open>Python's \<^verbatim>\<open>int\<close> of a float truncates towards zero.\<close>

definition py_int :: "rat \<Rightarrow> int" where
  "py_int r = (if 0 \<le> r then \<lfloor>r\<rfloor> else \<lceil>r\<rceil>)"

text \<open>
  The spectrogram \<^verbatim>\<open>C_db\<close> is a two-dimensional array indexed \<^verbatim>\<open>[bin, frame]\<close>: a list of
  rows, all of one length. \<^verbatim>\<open>C_db.shape[1]\<close> is the number of frames.
\<close>

type_synonym spectrogram = "rat list list"

definition shape1 :: "spectrogram \<Rightarrow> nat" where
  "shape1 C_db = (case C_db of [] \<Rightarrow> 0 | row # _ \<Rightarrow> length row)"

text \<open>An index into an axis of length \<open>n\<close>: a negative one counts from the end.\<close>

definition wrap_index :: "nat \<Rightarrow> int \<Rightarrow> error + nat" where
  "wrap_index n i =
     (if i < - int n \<or> int n \<le> i then Inl IndexError
      else Inr (nat (if i < 0 then i + int n else i)))"

text \<open>\<^verbatim>\<open>C_db[:, onset_frame]\<close>\<close>

definition column :: "spectrogram \<Rightarrow> int \<Rightarrow> error + rat list" where
  "column C_db i =
     (case wrap_index (shape1 C_db) i of
        Inl e \<Rightarrow> Inl e
      | Inr j \<Rightarrow> Inr (map (\<lambda>row. row ! j) C_db))"

text \<open>
  \<^verbatim>\<open>C_db[peak_idx, check_frame]\<close>, read where both indices are in range: the bin is a
  peak of a column and the frame lies in the scan window (lemma \<open>scan_window_in_range\<close>).
\<close>

definition db_at :: "spectrogram \<Rightarrow> nat \<Rightarrow> int \<Rightarrow> rat" where
  "db_at C_db peak_idx check_frame =
     C_db ! peak_idx ! nat (if check_frame < 0 then check_frame + int (shape1 C_db) else check_frame)"

text \<open>\<^verbatim>\<open>librosa.frames_to_time(frame, sr=sr, hop_length=hop_length)\<close>\<close>

definition frames_to_time :: "transcriber \<Rightarrow> int \<Rightarrow> rat" where
  "frames_to_time t frame = of_int (frame * hop_length t) / of_int (sample_rate t)"

text \<open>
  The loop \<^verbatim>\<open>for check_frame in range(...)\<close>: the first frame where the bin is below
  -50 dB, if there is one.
\<close>

fun decay_scan :: "spectrogram \<Rightarrow> nat \<Rightarrow> int list \<Rightarrow> int option" where
  "decay_scan C_db peak_idx [] = None"
| "decay_scan C_db peak_idx (check_frame # rest) =
     (if db_at C_db peak_idx check_frame < - 50 then Some check_frame
      else decay_scan C_db peak_idx rest)"

definition scan_window :: "transcriber \<Rightarrow> spectrogram \<Rightarrow> int \<Rightarrow> int list" where
  "scan_window t C_db onset_frame =
     [onset_frame + 1 .. min (onset_frame + py_int (frame_rate t * 2)) (int (shape1 C_db)) - 1]"

definition estimate_offset :: "transcriber \<Rightarrow> spectrogram \<Rightarrow> int \<Rightarrow> nat \<Rightarrow> int" where
  "estimate_offset t C_db onset_frame peak_idx =
     (case decay_scan C_db peak_idx (scan_window t C_db onset_frame) of
        Some check_frame \<Rightarrow> check_frame
      | None \<Rightarrow> onset_frame + py_int (frame_rate t * (1 / 2)))"

text \<open>\<^verbatim>\<open>list(peaks).index(peak_idx)\<close>\<close>

fun index_of :: "nat list \<Rightarrow> nat \<Rightarrow> nat" where
  "index_of [] p = 0"
| "index_of (q # qs) p = (if q = p then 0 else Suc (index_of qs p))"

text \<open>The body of \<^verbatim>\<open>for peak_idx in peaks\<close>: the note that is appended.\<close>

definition make_note ::
  "transcriber \<Rightarrow> spectrogram \<Rightarrow> int \<Rightarrow> nat list \<Rightarrow> rat list \<Rightarrow> nat \<Rightarrow> note_event" where
  "make_note t C_db onset_frame peaks peak_heights peak_idx =
     (let midi_note = 21 + int peak_idx;
          velocity = py_int (min 127 (max 1 ((peak_heights ! index_of peaks peak_idx + 60) * 2)));
          offset_frame = estimate_offset t C_db onset_frame peak_idx;
          onset_time = frames_to_time t onset_frame;
          offset_time = frames_to_time t offset_frame
      in \<lparr>pitch_midi = midi_note, onset_time_s = onset_time, offset_time_s = offset_time,
          velocity = velocity, confidence = 1 / 2\<rparr>)"

definition notes_at :: "transcriber \<Rightarrow> spectrogram \<Rightarrow> int \<Rightarrow> rat list \<Rightarrow> note_event list" where
  "notes_at t C_db onset_frame spectrum =
     (case find_peaks spectrum (- 40) 2 of
        (peaks, peak_heights) \<Rightarrow> map (make_note t C_db onset_frame peaks peak_heights) peaks)"

text \<open>
  The loop \<^verbatim>\<open>for onset_frame in onset_frames\<close>: a frame at or beyond the number of
  frames is passed over by the guard; the notes of the others are appended in order.
\<close>

fun extract_notes :: "transcriber \<Rightarrow> spectrogram \<Rightarrow> int list \<Rightarrow> error + note_event list" where
  "extract_notes t C_db [] = Inr []"
| "extract_notes t C_db (onset_frame # rest) =
     (if onset_frame < int (shape1 C_db) then
        (case column C_db onset_frame of
           Inl e \<Rightarrow> Inl e
         | Inr spectrum \<Rightarrow>
             (case extract_notes t C_db rest of
                Inl e \<Rightarrow> Inl e
              | Inr notes \<Rightarrow> Inr (notes_at t C_db onset_frame spectrum @ notes)))
      else extract_notes t C_db rest)"

text \<open>
  The inner loop \<^verbatim>\<open>for existing in filtered_notes\<close>: it stops at the first kept note
  of the same pitch whose interval holds the onset.
\<close>

fun overlaps_existing :: "note_event list \<Rightarrow> note_event \<Rightarrow> bool" where
  "overlaps_existing [] n = False"
| "overlaps_existing (existing # rest) n =
     (if pitch_midi existing = pitch_midi n \<and>
         onset_time_s existing \<le> onset_time_s n \<and> onset_time_s n < offset_time_s existing
      then True else overlaps_existing rest n)"

text \<open>The loop \<^verbatim>\<open>for note in notes\<close> over the sorted notes, with the list of kept notes.\<close>

fun filter_overlapping :: "note_event list \<Rightarrow> note_event list \<Rightarrow> note_event list" where
  "filter_overlapping filtered_notes [] = filtered_notes"
| "filter_overlapping filtered_notes (n # notes) =
     (if \<not> overlaps_existing filtered_notes n
      then filter_overlapping (filtered_notes @ [n]) notes
      else filter_overlapping filtered_notes notes)"

text \<open>
  \<^verbatim>\<open>transcribe\<close>, from the spectrogram and the onset frames on. The list sort of Python is
  stable, as \<open>sort_key\<close> is. The result is the value under \<^verbatim>\<open>'notes'\<close>.
\<close>

definition transcribe :: "transcriber \<Rightarrow> spectrogram \<Rightarrow> int list \<Rightarrow> error + note_event list" where
  "transcribe t C_db onset_frames =
     (case extract_notes t C_db onset_frames of
        Inl e \<Rightarrow> Inl e
      | Inr notes \<Rightarrow> Inr (filter_overlapping [] (sort_key onset_time_s notes)))"

text \<open>The notes appended for one onset frame that passed the guard.\<close>

definition frame_notes :: "transcriber \<Rightarrow> spectrogram \<Rightarrow> int \<Rightarrow> note_event list" where
  "frame_notes t C_db onset_frame =
     (case column C_db onset_frame of
        Inl e \<Rightarrow> []
      | Inr spectrum \<Rightarrow> notes_at t C_db onset_frame spectrum)"

text \<open>Two half-open intervals \<open>[onset, offset)\<close> have a point in common.\<close>

definition intervals_overlap :: "note_event \<Rightarrow> note_event \<Rightarrow> bool" where
  "intervals_overlap a b \<longleftrightarrow>
     max (onset_time_s a) (onset_time_s b) < min (offset_time_s a) (offset_time_s b)"

text \<open>Example inputs: a column with two peaks, and a spectrogram of three bins and three frames.\<close>

definition example_column :: "rat list" where
  "example_column = [- 80, - 30, - 80, - 10, - 80]"

definition example_C_db :: spectrogram where
  "example_C_db = [[- 80, - 80, - 80], [- 10, - 60, - 20], [- 80, - 80, - 80]]"

text \<open>The two notes that the example spectrogram gives at the onset frames 0 and 2.\<close>

definition example_note_0 :: note_event where
  "example_note_0 =
     \<lparr>pitch_midi = 22, onset_time_s = 0, offset_time_s = 256 / 11025,
      velocity = 100, confidence = 1 / 2\<rparr>"

definition example_note_2 :: note_event where
  "example_note_2 =
     \<lparr>pitch_midi = 22, onset_time_s = 512 / 11025, offset_time_s = 5888 / 11025,
      velocity = 80, confidence = 1 / 2\<rparr>"







section \<open>Properties of the agreement score\<close>

lemma scan_notes2_eq:
  "scan_notes2 n1 notes2 m = m + (if \<exists>n2 \<in> set notes2. note_matches n1 n2 then 1 else 0)"
  by (induction notes2) auto

lemma count_loop_eq:
  "count_loop notes1 notes2 m =
     m + length (filter (\<lambda>n1. \<exists>n2 \<in> set notes2. note_matches n1 n2) notes1)"
  by (induction notes1 arbitrary: m) (auto simp: scan_notes2_eq)

lemma scan_notes2_first_fit:
  assumes "\<forall>x \<in> set pre. \<not> note_matches n1 x" and "note_matches n1 n2"
  shows "scan_notes2 n1 (pre @ n2 # post) m = Suc m"
  using assms by (induction pre) auto

lemma count_matches_le: "count_matches notes1 notes2 \<le> length notes1"
  by (simp add: count_matches_def count_loop_eq)

lemma agreement_Inr:
  "agreement a b =
     Inr (if a = [] \<and> b = [] then 0
          else of_nat (count_matches a b) / of_nat (max (length a) (length b)))"
  by (cases a; cases b) (simp_all add: agreement_def truediv_def)

lemma json_note_sel [simp]:
  "pitch_midi (json_note p on off) = p"
  "onset_time_s (json_note p on off) = on"
  "offset_time_s (json_note p on off) = off"
  by (simp_all add: json_note_def)

text \<open>
  C1, as stated, fails. The onsets 1.0 and 1.05 are 0.05 apart and the pitches are equal,
  but the double of 1.05 is above 1.05 and the note is not counted. The onsets 0 and
  0.05000000000000000277 (the double of 0.05) are more than 0.05 apart, and the note is
  counted. In both cases the count is not the number of notes with a partner within
  0.05.
\<close>

theorem exact_tolerance_counterexample:
  "\<bar>onset_time_s (json_note 60 1 2) - onset_time_s (json_note 60 (105 / 100) 2)\<bar> = 5 / 100
   \<and> count_matches [json_note 60 1 2] [json_note 60 (105 / 100) 2] = 0
   \<and> count_matches [json_note 60 1 2] [json_note 60 (105 / 100) 2] \<noteq>
       length (filter (\<lambda>n1. \<exists>n2 \<in> set [json_note 60 (105 / 100) 2].
          \<bar>pitch_midi n1 - pitch_midi n2\<bar> \<le> 1 \<and>
          \<bar>onset_time_s n1 - onset_time_s n2\<bar> \<le> 5 / 100) [json_note 60 1 2])
   \<and> 5 / 100 < \<bar>onset_time_s (json_note 60 0 1)
         - onset_time_s (json_note 60 (3602879701896397 / 72057594037927936) 1)\<bar>
   \<and> count_matches [json_note 60 0 1]
         [json_note 60 (3602879701896397 / 72057594037927936) 1] = 1"
  by code_simp

text \<open>
  C1, amended. A note of the first list is counted iff some note of the second list is
  within one semitone of it and the difference of the two onsets, computed in double
  precision, is in absolute value at most the double of 0.05, both bounds included: the
  count is the number of such notes of the first list. The scan of the second list stops
  at the first note that matches, whatever follows it; notes exactly at both bounds match;
  and one note of the second list serves every note of the first list that it matches.
\<close>

theorem count_matches_characterised:
  "count_matches a b =
     length (filter (\<lambda>n1. \<exists>n2 \<in> set b.
        \<bar>pitch_midi n1 - pitch_midi n2\<bar> \<le> 1 \<and>
        onsets_within_tolerance (onset_time_s n1) (onset_time_s n2)) a)
   \<and> ((\<forall>x \<in> set pre. \<not> note_matches n1 x) \<and> note_matches n1 n2 \<longrightarrow>
        scan_notes2 n1 (pre @ n2 # post) m = Suc m)
   \<and> (\<bar>pitch_midi n1 - pitch_midi n2\<bar> = 1 \<and>
        to_double (onset_time_s n1) = Some x \<and> to_double (onset_time_s n2) = Some y \<and>
        to_double (x - y) = Some d \<and> \<bar>d\<bar> = round_double (5 / 100) \<longrightarrow>
        note_matches n1 n2)
   \<and> ((\<forall>n1 \<in> set a. note_matches n1 n) \<longrightarrow> count_matches a [n] = length a)"
proof (intro conjI impI)
  show "count_matches a b =
     length (filter (\<lambda>n1. \<exists>n2 \<in> set b.
        \<bar>pitch_midi n1 - pitch_midi n2\<bar> \<le> 1 \<and>
        onsets_within_tolerance (onset_time_s n1) (onset_time_s n2)) a)"
    by (simp add: count_matches_def count_loop_eq note_matches_def)
next
  assume "(\<forall>x \<in> set pre. \<not> note_matches n1 x) \<and> note_matches n1 n2"
  then show "scan_notes2 n1 (pre @ n2 # post) m = Suc m"
    by (simp add: scan_notes2_first_fit)
next
  assume "\<bar>pitch_midi n1 - pitch_midi n2\<bar> = 1 \<and>
      to_double (onset_time_s n1) = Some x \<and> to_double (onset_time_s n2) = Some y \<and>
      to_double (x - y) = Some d \<and> \<bar>d\<bar> = round_double (5 / 100)"
  then show "note_matches n1 n2"
    by (simp add: note_matches_def onsets_within_tolerance_def)
next
  assume "\<forall>n1 \<in> set a. note_matches n1 n"
  then show "count_matches a [n] = length a"
    by (simp add: count_matches_def count_loop_eq)
qed

theorem count_matches_characterised_witness:
  "count_matches [json_note 60 0 (1 / 2), json_note 72 1 2]
       [json_note 64 0 1, json_note 61 (5 / 100) 1, json_note 60 0 1] = 1
   \<and> \<not> note_matches (json_note 60 0 (1 / 2)) (json_note 64 0 1)
   \<and> note_matches (json_note 60 0 (1 / 2)) (json_note 61 (5 / 100) 1)
   \<and> scan_notes2 (json_note 60 0 (1 / 2))
       [json_note 64 0 1, json_note 61 (5 / 100) 1, json_note 60 0 1] 0 = 1
   \<and> count_matches [json_note 60 0 1, json_note 61 (2 / 100) 1, json_note 59 (- 3 / 100) 1]
       [json_note 60 0 1] = 3"
proof -
  have far: "\<forall>x \<in> set [json_note 64 0 1]. \<not> note_matches (json_note 60 0 (1 / 2)) x"
    by (simp add: note_matches_def)
  have zero: "to_double (onset_time_s (json_note 60 0 (1 / 2))) = Some 0"
    by code_simp
  have tol: "to_double (onset_time_s (json_note 61 (5 / 100) 1))
      = Some (3602879701896397 / 72057594037927936)"
    by code_simp
  have diff: "to_double (0 - 3602879701896397 / 72057594037927936)
      = Some (- (3602879701896397 / 72057594037927936))"
    by code_simp
  have edge: "\<bar>pitch_midi (json_note 60 0 (1 / 2)) - pitch_midi (json_note 61 (5 / 100) 1)\<bar> = 1
      \<and> to_double (onset_time_s (json_note 60 0 (1 / 2))) = Some 0
      \<and> to_double (onset_time_s (json_note 61 (5 / 100) 1))
          = Some (3602879701896397 / 72057594037927936)
      \<and> to_double (0 - 3602879701896397 / 72057594037927936)
          = Some (- (3602879701896397 / 72057594037927936))
      \<and> \<bar>- (3602879701896397 / 72057594037927936)\<bar> = round_double (5 / 100)"
  proof -
    have "\<bar>pitch_midi (json_note 60 0 (1 / 2)) - pitch_midi (json_note 61 (5 / 100) 1)\<bar> = 1"
      by simp
    moreover have "\<bar>- (3602879701896397 / 72057594037927936)\<bar> = round_double (5 / 100)"
      by code_simp
    ultimately show ?thesis using zero tol diff by blast
  qed
  have all: "\<forall>n1 \<in> set [json_note 60 0 1, json_note 61 (2 / 100) 1, json_note 59 (- 3 / 100) 1].
      note_matches n1 (json_note 60 0 1)"
    by code_simp
  note inst = count_matches_characterised
    [of "[json_note 60 0 (1 / 2), json_note 72 1 2]"
        "[json_note 64 0 1, json_note 61 (5 / 100) 1, json_note 60 0 1]"
        "[json_note 64 0 1]" "json_note 60 0 (1 / 2)" "json_note 61 (5 / 100) 1"
        "[json_note 60 0 1]" 0 0 "3602879701896397 / 72057594037927936"
        "- (3602879701896397 / 72057594037927936)"]
  from inst edge have m: "note_matches (json_note 60 0 (1 / 2)) (json_note 61 (5 / 100) 1)"
    by blast
  from inst far m have s: "scan_notes2 (json_note 60 0 (1 / 2))
       [json_note 64 0 1, json_note 61 (5 / 100) 1, json_note 60 0 1] 0 = 1"
    by simp
  have c: "count_matches [json_note 60 0 (1 / 2), json_note 72 1 2]
       [json_note 64 0 1, json_note 61 (5 / 100) 1, json_note 60 0 1] = 1"
    by code_simp
  from count_matches_characterised
    [where a = "[json_note 60 0 1, json_note 61 (2 / 100) 1, json_note 59 (- 3 / 100) 1]"
       and n = "json_note 60 0 1"] all
  have "count_matches [json_note 60 0 1, json_note 61 (2 / 100) 1, json_note 59 (- 3 / 100) 1]
       [json_note 60 0 1]
     = length [json_note 60 0 1, json_note 61 (2 / 100) 1, json_note 59 (- 3 / 100) 1]"
    by blast
  also have "\<dots> = 3" by simp
  finally have r: "count_matches [json_note 60 0 1, json_note 61 (2 / 100) 1, json_note 59 (- 3 / 100) 1]
       [json_note 60 0 1] = 3" .
  from far have f: "\<not> note_matches (json_note 60 0 (1 / 2)) (json_note 64 0 1)"
    by simp
  from c f m s r show ?thesis by blast
qed

text \<open>
  C3. The agreement ratio is the number of matches divided by the length of the longer
  list; when both lists are empty it is 0, and the division is never reached with a zero
  divisor: no call raises.
\<close>

theorem agreement_ratio_defined:
  "agreement a b =
     Inr (if a = [] \<and> b = [] then 0
          else of_nat (count_matches a b) / of_nat (max (length a) (length b)))
   \<and> (a \<noteq> [] \<or> b \<noteq> [] \<longrightarrow> 0 < max (length a) (length b))
   \<and> agreement [] [] = Inr 0"
  by (cases a; cases b) (simp_all add: agreement_Inr)

theorem agreement_ratio_defined_witness:
  "agreement [json_note 60 0 1, json_note 62 1 2] [json_note 60 0 1, json_note 70 1 2, json_note 80 3 4]
     = Inr (1 / 3)
   \<and> 0 < max (length [json_note 60 0 1, json_note 62 1 2])
            (length [json_note 60 0 1, json_note 70 1 2, json_note 80 3 4])"
proof -
  have ne: "[json_note 60 0 1, json_note 62 1 2] \<noteq> []
      \<or> [json_note 60 0 1, json_note 70 1 2, json_note 80 3 4] \<noteq> []"
    by simp
  have cnt: "count_matches [json_note 60 0 1, json_note 62 1 2]
      [json_note 60 0 1, json_note 70 1 2, json_note 80 3 4] = 1"
    by code_simp
  from agreement_ratio_defined
    [of "[json_note 60 0 1, json_note 62 1 2]"
        "[json_note 60 0 1, json_note 70 1 2, json_note 80 3 4]"] ne cnt
  show ?thesis by simp
qed

text \<open>
  C7. The agreement ratio is not symmetric: the note (60, 0.0, 0.5) against the notes
  (61, 0.02, 0.5) and (60, 0.0, 0.5) scores one match of two, 0.5, and the other way
  round both notes find a partner and the score is 1.
\<close>

theorem agreement_asymmetric:
  "agreement [json_note 60 0 (1 / 2)] [json_note 61 (2 / 100) (1 / 2), json_note 60 0 (1 / 2)]
     = Inr (1 / 2)
   \<and> agreement [json_note 61 (2 / 100) (1 / 2), json_note 60 0 (1 / 2)] [json_note 60 0 (1 / 2)]
     = Inr 1"
  by code_simp

theorem agreement_asymmetric_witness:
  "\<exists>a b. agreement a b \<noteq> agreement b a"
proof -
  have "agreement [json_note 60 0 (1 / 2)] [json_note 61 (2 / 100) (1 / 2), json_note 60 0 (1 / 2)]
      \<noteq> agreement [json_note 61 (2 / 100) (1 / 2), json_note 60 0 (1 / 2)] [json_note 60 0 (1 / 2)]"
    using agreement_asymmetric by simp
  then show ?thesis by blast
qed

text \<open>
  C9. Every note of the first list adds at most one match, so the count is at most the
  length of the first list, which is at most the length of the longer list; the agreement
  ratio lies between 0 and 1.
\<close>

theorem agreement_bounds:
  "count_matches a b \<le> length a \<and> length a \<le> max (length a) (length b)
   \<and> (\<exists>r. agreement a b = Inr r \<and> 0 \<le> r \<and> r \<le> 1)"
proof -
  have le: "count_matches a b \<le> max (length a) (length b)"
    using count_matches_le [of a b] by simp
  have "(of_nat (count_matches a b) :: rat) / of_nat (max (length a) (length b)) \<le> 1"
    if "\<not> (a = [] \<and> b = [])"
  proof -
    from that have pos: "(0::rat) < of_nat (max (length a) (length b))"
      by (cases a; cases b) simp_all
    from le have "(of_nat (count_matches a b) :: rat) \<le> of_nat (max (length a) (length b))"
      by (simp only: of_nat_le_iff)
    with pos show ?thesis by (simp add: divide_le_eq_1)
  qed
  then show ?thesis
    by (simp add: agreement_Inr count_matches_le)
qed

theorem agreement_bounds_witness:
  "count_matches [json_note 60 0 1, json_note 62 1 2] [json_note 60 0 1] = 1
   \<and> agreement [json_note 60 0 1, json_note 62 1 2] [json_note 60 0 1] = Inr (1 / 2)
   \<and> (\<exists>r. agreement [json_note 60 0 1, json_note 62 1 2] [json_note 60 0 1] = Inr r \<and> 0 \<le> r \<and> r \<le> 1)"
proof -
  have cnt: "count_matches [json_note 60 0 1, json_note 62 1 2] [json_note 60 0 1] = 1"
    by code_simp
  then have ag: "agreement [json_note 60 0 1, json_note 62 1 2] [json_note 60 0 1] = Inr (1 / 2)"
    by (simp add: agreement_Inr)
  from agreement_bounds [of "[json_note 60 0 1, json_note 62 1 2]" "[json_note 60 0 1]"] cnt ag
  show ?thesis by blast
qed

section \<open>Properties of the peak picker and of the transcription\<close>

lemma plateau_end_le:
  "i_ahead \<le> length x - 1 \<Longrightarrow> plateau_end x i i_ahead \<le> length x - 1"
proof (induction x i i_ahead rule: plateau_end.induct)
  case (1 x i i_ahead)
  show ?case
  proof (cases "i_ahead < length x - 1 \<and> x ! i_ahead = x ! i")
    case True
    with "1.IH" have "plateau_end x i (i_ahead + 1) \<le> length x - 1" by simp
    with True show ?thesis by (subst plateau_end.simps) simp
  next
    case False
    with "1.prems" show ?thesis by (subst plateau_end.simps) auto
  qed
qed

lemma local_maxima_from_bounds:
  "p \<in> set (local_maxima_from x i) \<Longrightarrow> i \<le> p \<and> p < length x - 1"
proof (induction x i rule: local_maxima_from.induct)
  case (1 x i)
  let ?e = "plateau_end x i (i + 1)"
  have ge: "i + 1 \<le> ?e" by (rule plateau_end_ge)
  show ?case
  proof (cases "i < length x - 1")
    case False
    with "1.prems" show ?thesis by (subst (asm) local_maxima_from.simps) simp
  next
    case in_range: True
    show ?thesis
    proof (cases "x ! (i - 1) < x ! i")
      case False
      with in_range "1.prems" have "p \<in> set (local_maxima_from x (i + 1))"
        by (subst (asm) local_maxima_from.simps) simp
      with "1.IH"(3) in_range False show ?thesis by fastforce
    next
      case rising: True
      show ?thesis
      proof (cases "x ! ?e < x ! i")
        case False
        with in_range rising "1.prems" have "p \<in> set (local_maxima_from x (i + 1))"
          by (subst (asm) local_maxima_from.simps) simp
        with "1.IH"(2) in_range rising False show ?thesis by fastforce
      next
        case True
        with in_range rising "1.prems"
        have "p = (i + (?e - 1)) div 2 \<or> p \<in> set (local_maxima_from x (?e + 1))"
          by (subst (asm) local_maxima_from.simps) simp
        then show ?thesis
        proof
          assume p: "p = (i + (?e - 1)) div 2"
          have "?e \<le> length x - 1" using in_range by (intro plateau_end_le) simp
          with p ge in_range show ?thesis by auto
        next
          assume "p \<in> set (local_maxima_from x (?e + 1))"
          with "1.IH"(1) in_range rising True have "?e + 1 \<le> p \<and> p < length x - 1" by blast
          with ge show ?thesis by simp
        qed
      qed
    qed
  qed
qed

lemma local_maxima_from_sorted: "sorted_wrt (<) (local_maxima_from x i)"
proof (induction x i rule: local_maxima_from.induct)
  case (1 x i)
  let ?e = "plateau_end x i (i + 1)"
  have ge: "i + 1 \<le> ?e" by (rule plateau_end_ge)
  show ?case
  proof (cases "i < length x - 1 \<and> x ! (i - 1) < x ! i \<and> x ! ?e < x ! i")
    case True
    then have unfold: "local_maxima_from x i =
        ((i + (?e - 1)) div 2) # local_maxima_from x (?e + 1)"
      by (subst local_maxima_from.simps) simp
    have later: "(i + (?e - 1)) div 2 < p" if "p \<in> set (local_maxima_from x (?e + 1))" for p
    proof -
      from that have "?e + 1 \<le> p" by (simp add: local_maxima_from_bounds)
      with ge show ?thesis by simp
    qed
    from True "1.IH"(1) have "sorted_wrt (<) (local_maxima_from x (?e + 1))" by blast
    with later unfold show ?thesis by simp
  next
    case False
    show ?thesis
    proof (cases "i < length x - 1")
      case False
      then show ?thesis by (subst local_maxima_from.simps) simp
    next
      case True
      with False have unfold: "local_maxima_from x i = local_maxima_from x (i + 1)"
        by (subst local_maxima_from.simps) auto
      from True False "1.IH"(2,3) have "sorted_wrt (<) (local_maxima_from x (i + 1))"
        by (cases "x ! (i - 1) < x ! i") auto
      with unfold show ?thesis by simp
    qed
  qed
qed

lemma set_bool_index: "set (bool_index xs ks) \<subseteq> set xs"
  by (induction xs ks rule: bool_index.induct) auto

lemma sorted_wrt_bool_index: "sorted_wrt P xs \<Longrightarrow> sorted_wrt P (bool_index xs ks)"
proof (induction xs ks rule: bool_index.induct)
  case (1 x xs k ks)
  then show ?case using set_bool_index [of xs ks] by auto
qed simp_all

lemma bool_index_none: "\<forall>k \<in> set ks. \<not> k \<Longrightarrow> bool_index xs ks = []"
  by (induction xs ks rule: bool_index.induct) auto

lemma find_peaks_sorted: "sorted_wrt (<) (fst (find_peaks x height distance))"
  by (simp add: find_peaks_def Let_def local_maxima_1d_def sorted_wrt_bool_index
      local_maxima_from_sorted)

lemma find_peaks_in_range:
  assumes "p \<in> set (fst (find_peaks x height distance))"
  shows "1 \<le> p \<and> p < length x - 1"
proof -
  from assms have "p \<in> set (local_maxima_1d x)"
    unfolding find_peaks_def Let_def fst_conv
    by (meson set_bool_index subsetD)
  then show ?thesis
    using local_maxima_from_bounds [of p x 1] by (auto simp: local_maxima_1d_def)
qed

lemma find_peaks_silent:
  assumes "\<forall>v \<in> set x. v < height"
  shows "find_peaks x height distance = ([], [])"
proof -
  let ?keep = "map (\<lambda>h. height \<le> h) (map (\<lambda>p. x ! p) (local_maxima_1d x))"
  have "\<not> height \<le> x ! p" if "p \<in> set (local_maxima_1d x)" for p
  proof -
    from that have "p < length x"
      using local_maxima_from_bounds [of p x 1] by (auto simp: local_maxima_1d_def)
    with assms show ?thesis by (simp add: not_le)
  qed
  then have none: "\<forall>k \<in> set ?keep. \<not> k" by auto
  have "bool_index (local_maxima_1d x) ?keep = []"
    and "bool_index (map (\<lambda>p. x ! p) (local_maxima_1d x)) ?keep = []"
    using none by (rule bool_index_none)+
  then show ?thesis
    unfolding find_peaks_def Let_def by simp
qed


lemma extract_notes_concat:
  "extract_notes t C_db fs = Inr ns \<Longrightarrow>
     ns = concat (map (frame_notes t C_db) (filter (\<lambda>f. f < int (shape1 C_db)) fs))"
proof (induction fs arbitrary: ns)
  case Nil
  then show ?case by simp
next
  case (Cons f fs)
  show ?case
  proof (cases "f < int (shape1 C_db)")
    case False
    with Cons show ?thesis by simp
  next
    case True
    with Cons.prems obtain spectrum rest where
      col: "column C_db f = Inr spectrum" and
      rest: "extract_notes t C_db fs = Inr rest" and
      ns: "ns = notes_at t C_db f spectrum @ rest"
      by (auto split: sum.splits)
    from Cons.IH [OF rest] col ns True show ?thesis
      by (simp add: frame_notes_def)
  qed
qed

lemma extract_notes_skip:
  "extract_notes t C_db (filter (\<lambda>f. f < int (shape1 C_db)) fs) = extract_notes t C_db fs"
  by (induction fs) (simp_all cong: sum.case_cong)

lemma frame_notes_fields:
  assumes "n \<in> set (frame_notes t C_db f)"
  shows "\<exists>p. pitch_midi n = 21 + int p \<and>
             onset_time_s n = frames_to_time t f \<and>
             offset_time_s n = frames_to_time t (estimate_offset t C_db f p)"
  using assms
  by (auto simp: frame_notes_def notes_at_def make_note_def Let_def split: sum.splits prod.splits)


lemma decay_scan_mem: "decay_scan C_db p fs = Some cf \<Longrightarrow> cf \<in> set fs"
  by (induction fs) (auto split: if_splits)

lemma decay_scan_first:
  "decay_scan C_db p fs = Some cf \<Longrightarrow>
     \<exists>pre post. fs = pre @ cf # post \<and> db_at C_db p cf < - 50 \<and>
        (\<forall>g \<in> set pre. \<not> db_at C_db p g < - 50)"
proof (induction fs)
  case Nil
  then show ?case by simp
next
  case (Cons g fs)
  show ?case
  proof (cases "db_at C_db p g < - 50")
    case True
    with Cons.prems have "g = cf" by simp
    with True have "g # fs = [] @ cf # fs \<and> db_at C_db p cf < - 50 \<and>
        (\<forall>g \<in> set []. \<not> db_at C_db p g < - 50)" by simp
    then show ?thesis by blast
  next
    case False
    with Cons obtain pre post where "fs = pre @ cf # post" "db_at C_db p cf < - 50"
        "\<forall>g \<in> set pre. \<not> db_at C_db p g < - 50" by auto
    with False have "g # fs = (g # pre) @ cf # post \<and> db_at C_db p cf < - 50 \<and>
        (\<forall>h \<in> set (g # pre). \<not> db_at C_db p h < - 50)" by simp
    then show ?thesis by blast
  qed
qed

lemma scan_window_bounds:
  "cf \<in> set (scan_window t C_db f) \<Longrightarrow>
     f + 1 \<le> cf \<and> cf < f + py_int (frame_rate t * 2) \<and> cf < int (shape1 C_db)"
  by (auto simp: scan_window_def)

lemma scan_window_in_range:
  assumes "column C_db f = Inr spectrum" and "cf \<in> set (scan_window t C_db f)"
  shows "- int (shape1 C_db) \<le> cf \<and> cf < int (shape1 C_db)"
proof -
  from assms(1) have "- int (shape1 C_db) \<le> f"
    by (auto simp: column_def wrap_index_def split: if_splits sum.splits)
  with scan_window_bounds [OF assms(2)] show ?thesis by simp
qed

lemma estimate_offset_after:
  assumes "2 \<le> frame_rate t"
  shows "f + 1 \<le> estimate_offset t C_db f p"
proof (cases "decay_scan C_db p (scan_window t C_db f)")
  case None
  from assms have "1 \<le> py_int (frame_rate t * (1 / 2))"
    by (simp add: py_int_def le_floor_iff)
  with None show ?thesis by (simp add: estimate_offset_def)
next
  case (Some cf)
  then have "cf \<in> set (scan_window t C_db f)" by (rule decay_scan_mem)
  then have "f + 1 \<le> cf" by (simp add: scan_window_bounds)
  with Some show ?thesis by (simp add: estimate_offset_def)
qed

lemma frames_to_time_less:
  assumes "0 < hop_length t" and "0 < sample_rate t" and "f < g"
  shows "frames_to_time t f < frames_to_time t g"
proof -
  from assms have "f * hop_length t < g * hop_length t" by simp
  then have "(of_int (f * hop_length t) :: rat) < of_int (g * hop_length t)"
    by (simp only: of_int_less_iff)
  moreover from assms(2) have "(0::rat) < of_int (sample_rate t)" by simp
  ultimately show ?thesis
    unfolding frames_to_time_def by (rule divide_strict_right_mono)
qed


lemma overlaps_existing_iff:
  "overlaps_existing kept n \<longleftrightarrow>
     (\<exists>e \<in> set kept. pitch_midi e = pitch_midi n \<and>
        onset_time_s e \<le> onset_time_s n \<and> onset_time_s n < offset_time_s e)"
  by (induction kept) auto

lemma filter_overlapping_sorted_wrt:
  "sorted_wrt P (kept @ ns) \<Longrightarrow> sorted_wrt P (filter_overlapping kept ns)"
proof (induction ns arbitrary: kept)
  case Nil
  then show ?case by simp
next
  case (Cons n ns)
  show ?case
  proof (cases "overlaps_existing kept n")
    case True
    from Cons.prems have "sorted_wrt P (kept @ ns)"
      by (auto simp: sorted_wrt_append)
    with True Cons.IH show ?thesis by simp
  next
    case False
    from Cons.prems have "sorted_wrt P ((kept @ [n]) @ ns)" by simp
    with False Cons.IH show ?thesis by simp
  qed
qed

lemma filter_overlapping_set:
  "set (filter_overlapping kept ns) \<subseteq> set kept \<union> set ns"
proof (induction ns arbitrary: kept)
  case Nil
  then show ?case by simp
next
  case (Cons n ns)
  from Cons.IH [of kept] Cons.IH [of "kept @ [n]"] show ?case by auto
qed

lemma filter_overlapping_no_conflict:
  assumes "sorted_wrt (\<lambda>a b. \<not> (pitch_midi a = pitch_midi b \<and>
      onset_time_s a \<le> onset_time_s b \<and> onset_time_s b < offset_time_s a)) kept"
  shows "sorted_wrt (\<lambda>a b. \<not> (pitch_midi a = pitch_midi b \<and>
      onset_time_s a \<le> onset_time_s b \<and> onset_time_s b < offset_time_s a))
      (filter_overlapping kept ns)"
  using assms
proof (induction ns arbitrary: kept)
  case Nil
  then show ?case by simp
next
  case (Cons n ns)
  show ?case
  proof (cases "overlaps_existing kept n")
    case True
    with Cons show ?thesis by simp
  next
    case False
    with Cons.prems have "sorted_wrt (\<lambda>a b. \<not> (pitch_midi a = pitch_midi b \<and>
      onset_time_s a \<le> onset_time_s b \<and> onset_time_s b < offset_time_s a)) (kept @ [n])"
      by (auto simp: sorted_wrt_append overlaps_existing_iff)
    with False Cons.IH show ?thesis by simp
  qed
qed

lemma bool_index_map: "bool_index (map f xs) ks = map f (bool_index xs ks)"
  by (induction xs ks rule: bool_index.induct) auto

lemma bool_index_filter: "bool_index xs (map P xs) = filter P xs"
  by (induction xs) auto

lemma find_peaks_heights:
  "snd (find_peaks x height distance) = map (\<lambda>p. x ! p) (fst (find_peaks x height distance))"
  unfolding find_peaks_def Let_def fst_conv snd_conv
  by (simp only: bool_index_map)

lemma find_peaks_height_ok:
  assumes "p \<in> set (fst (find_peaks x height distance))"
  shows "height \<le> x ! p"
proof -
  have "bool_index (local_maxima_1d x) (map (\<lambda>h. height \<le> h) (map (\<lambda>p. x ! p) (local_maxima_1d x)))
      = filter (\<lambda>p. height \<le> x ! p) (local_maxima_1d x)"
    using bool_index_filter [of "local_maxima_1d x" "\<lambda>p. height \<le> x ! p"] by (simp add: comp_def)
  with assms have "p \<in> set (bool_index (filter (\<lambda>p. height \<le> x ! p) (local_maxima_1d x))
     (select_by_peak_distance (filter (\<lambda>p. height \<le> x ! p) (local_maxima_1d x))
        (map (\<lambda>p. x ! p) (filter (\<lambda>p. height \<le> x ! p) (local_maxima_1d x))) distance))"
    unfolding find_peaks_def Let_def fst_conv by simp
  then have "p \<in> set (filter (\<lambda>p. height \<le> x ! p) (local_maxima_1d x))"
    using set_bool_index by fastforce
  then show ?thesis by simp
qed

lemma example_peaks:
  "find_peaks example_column (- 40) 2 = ([1, 3], [- 30, - 10])"
  unfolding example_column_def by code_simp

text \<open>
  C8, as stated, fails: on the column (-80, -30, -80, -10, -80) the peaks come as bin 1
  with -30 dB and then bin 3 with -10 dB, which is not descending in magnitude.
\<close>

theorem peak_order_counterexample:
  "find_peaks example_column (- 40) 2 = ([1, 3], [- 30, - 10])
   \<and> \<not> sorted_wrt (\<lambda>h h'. h \<ge> h') (snd (find_peaks example_column (- 40) 2))"
  by (simp add: example_peaks)

text \<open>
  C8, amended. For every column, height bound and distance, the peak picker returns its
  candidates in ascending bin order, each with its magnitude, every candidate a bin of
  the column at or above the height bound; when every bin is below the bound the result is
  empty.
\<close>

theorem peaks_in_bin_order:
  "sorted_wrt (<) (fst (find_peaks x height distance))
   \<and> snd (find_peaks x height distance) = map (\<lambda>p. x ! p) (fst (find_peaks x height distance))
   \<and> (\<forall>p \<in> set (fst (find_peaks x height distance)). p < length x \<and> height \<le> x ! p)
   \<and> ((\<forall>v \<in> set x. v < height) \<longrightarrow> find_peaks x height distance = ([], []))"
proof (intro conjI ballI impI)
  show "sorted_wrt (<) (fst (find_peaks x height distance))"
    by (rule find_peaks_sorted)
  show "snd (find_peaks x height distance) = map (\<lambda>p. x ! p) (fst (find_peaks x height distance))"
    by (rule find_peaks_heights)
next
  fix p assume "p \<in> set (fst (find_peaks x height distance))"
  then show "p < length x" using find_peaks_in_range [of p x height distance] by linarith
next
  fix p assume "p \<in> set (fst (find_peaks x height distance))"
  then show "height \<le> x ! p" by (rule find_peaks_height_ok)
next
  assume "\<forall>v \<in> set x. v < height"
  then show "find_peaks x height distance = ([], [])" by (rule find_peaks_silent)
qed

theorem peaks_in_bin_order_witness:
  "fst (find_peaks example_column (- 40) 2) = [1, 3]
   \<and> sorted_wrt (<) (fst (find_peaks example_column (- 40) 2))
   \<and> - 40 \<le> example_column ! 1
   \<and> find_peaks [- 80, - 70, - 80] (- 40) 2 = ([], [])"
proof -
  have quiet: "\<forall>v \<in> set [- 80, - 70, - 80 :: rat]. v < - 40" by simp
  have mem: "1 \<in> set (fst (find_peaks example_column (- 40) 2))"
    by (simp add: example_peaks)
  from peaks_in_bin_order [of example_column "- 40" 2] mem
  have "sorted_wrt (<) (fst (find_peaks example_column (- 40) 2))" and "- 40 \<le> example_column ! 1"
    by blast+
  moreover from peaks_in_bin_order [of "[- 80, - 70, - 80]" "- 40" 2] quiet
  have "find_peaks [- 80, - 70, - 80] (- 40) 2 = ([], [])" by blast
  ultimately show ?thesis by (simp add: example_peaks)
qed


lemma example_transcription:
  "transcribe default_transcriber example_C_db [0, 7] =
     Inr [\<lparr>pitch_midi = 22, onset_time_s = 0, offset_time_s = 256 / 11025,
           velocity = 100, confidence = 1 / 2\<rparr>]"
  unfolding example_C_db_def default_transcriber_def by code_simp

text \<open>
  C5, as stated, fails: with three frames, the onset frame 7 is out of range, and the
  call returns the note of onset frame 0 with no error.
\<close>

theorem late_onset_frame_counterexample:
  "shape1 example_C_db = 3
   \<and> transcribe default_transcriber example_C_db [0, 7] =
     Inr [\<lparr>pitch_midi = 22, onset_time_s = 0, offset_time_s = 256 / 11025,
           velocity = 100, confidence = 1 / 2\<rparr>]"
  by (simp add: example_transcription) (simp add: example_C_db_def shape1_def)

lemma extract_notes_IndexError:
  "\<exists>f \<in> set fs. f < - int (shape1 C_db) \<Longrightarrow> extract_notes t C_db fs = Inl IndexError"
proof (induction fs)
  case Nil
  then show ?case by simp
next
  case (Cons g fs)
  show ?case
  proof (cases "g < - int (shape1 C_db)")
    case True
    then have "column C_db g = Inl IndexError" by (simp add: column_def wrap_index_def)
    with True show ?thesis by simp
  next
    case False
    with Cons have rest: "extract_notes t C_db fs = Inl IndexError" by simp
    have "e = IndexError" if "column C_db g = Inl e" for e
      using that by (auto simp: column_def wrap_index_def split: if_splits sum.splits)
    with rest show ?thesis by (auto split: sum.splits)
  qed
qed

text \<open>
  C5, amended. An onset frame at or beyond the number of frames is passed over: the
  result is that of the call without it. An onset frame below minus the number of
  frames makes the call fail with an index error; with no such frame the call returns a
  list of notes.
\<close>

theorem out_of_range_onset_frames:
  "transcribe t C_db fs = transcribe t C_db (filter (\<lambda>f. f < int (shape1 C_db)) fs)
   \<and> ((\<exists>f \<in> set fs. f < - int (shape1 C_db)) \<longrightarrow> transcribe t C_db fs = Inl IndexError)
   \<and> ((\<forall>f \<in> set fs. - int (shape1 C_db) \<le> f) \<longrightarrow> (\<exists>out. transcribe t C_db fs = Inr out))"
proof (intro conjI impI)
  show "transcribe t C_db fs = transcribe t C_db (filter (\<lambda>f. f < int (shape1 C_db)) fs)"
    by (simp add: transcribe_def extract_notes_skip)
next
  assume "\<exists>f \<in> set fs. f < - int (shape1 C_db)"
  then show "transcribe t C_db fs = Inl IndexError"
    by (simp add: transcribe_def extract_notes_IndexError)
next
  assume "\<forall>f \<in> set fs. - int (shape1 C_db) \<le> f"
  then have "\<exists>ns. extract_notes t C_db fs = Inr ns"
  proof (induction fs)
    case Nil
    then show ?case by simp
  next
    case (Cons g fs)
    then obtain ns where ns: "extract_notes t C_db fs = Inr ns" by auto
    show ?case
    proof (cases "g < int (shape1 C_db)")
      case True
      with Cons.prems have "\<exists>spectrum. column C_db g = Inr spectrum"
        by (simp add: column_def wrap_index_def)
      with True ns show ?thesis by auto
    next
      case False
      with ns show ?thesis by simp
    qed
  qed
  then show "\<exists>out. transcribe t C_db fs = Inr out"
    by (auto simp: transcribe_def)
qed

theorem out_of_range_onset_frames_witness:
  "transcribe default_transcriber example_C_db [0, 7] = transcribe default_transcriber example_C_db [0]
   \<and> transcribe default_transcriber example_C_db [0, - 4] = Inl IndexError
   \<and> (\<exists>out. transcribe default_transcriber example_C_db [0, 7] = Inr out)"
proof -
  have n: "int (shape1 example_C_db) = 3" by (simp add: example_C_db_def shape1_def)
  have low: "\<exists>f \<in> set [0, - 4]. f < - int (shape1 example_C_db)" by (simp add: n)
  have ok: "\<forall>f \<in> set [0, 7]. - int (shape1 example_C_db) \<le> f" by (simp add: n)
  have keep: "filter (\<lambda>f. f < int (shape1 example_C_db)) [0, 7] = [0]" by (simp add: n)
  from out_of_range_onset_frames [of default_transcriber example_C_db "[0, 7]"] ok
  have "transcribe default_transcriber example_C_db [0, 7]
      = transcribe default_transcriber example_C_db (filter (\<lambda>f. f < int (shape1 example_C_db)) [0, 7])"
    and "\<exists>out. transcribe default_transcriber example_C_db [0, 7] = Inr out"
    by blast+
  then have "transcribe default_transcriber example_C_db [0, 7]
      = transcribe default_transcriber example_C_db [0]"
    and "\<exists>out. transcribe default_transcriber example_C_db [0, 7] = Inr out"
    by (simp_all only: keep)
  moreover from out_of_range_onset_frames [of default_transcriber example_C_db "[0, - 4]"] low
  have "transcribe default_transcriber example_C_db [0, - 4] = Inl IndexError" by blast
  ultimately show ?thesis by blast
qed

lemma example_frame_notes:
  "frame_notes default_transcriber example_C_db 0 =
     [\<lparr>pitch_midi = 22, onset_time_s = 0, offset_time_s = 256 / 11025,
       velocity = 100, confidence = 1 / 2\<rparr>]"
  unfolding example_C_db_def default_transcriber_def by code_simp

lemma example_decay_scan:
  "decay_scan example_C_db 1 (scan_window default_transcriber example_C_db 0) = Some 1"
  unfolding example_C_db_def default_transcriber_def by code_simp

lemma example_estimate_offset: "estimate_offset default_transcriber example_C_db 0 1 = 1"
  unfolding example_C_db_def default_transcriber_def by code_simp

lemma default_frame_rate: "frame_rate default_transcriber = 11025 / 256"
  by (simp add: default_transcriber_def)

lemma default_transcriber_init: "init_transcriber 22050 512 = Inr default_transcriber"
  by (simp add: init_transcriber_def default_transcriber_def)

text \<open>
  C4, as stated, fails: at the default frame rate the peak of bin 1 at onset frame 0 of
  the example decays at frame 1, so the candidate has offset frame 1, one frame after its
  onset, while a minimum duration of 0.1 s asks for more than 4 frames.
\<close>

theorem min_duration_counterexample:
  "frame_notes default_transcriber example_C_db 0 =
     [\<lparr>pitch_midi = 22, onset_time_s = 0, offset_time_s = frames_to_time default_transcriber 1,
       velocity = 100, confidence = 1 / 2\<rparr>]
   \<and> estimate_offset default_transcriber example_C_db 0 1 - 0 = 1
   \<and> \<not> (1 / 10) * frame_rate default_transcriber
         \<le> of_int (estimate_offset default_transcriber example_C_db 0 1 - 0)"
proof -
  have "frames_to_time default_transcriber 1 = 256 / 11025"
    by (simp add: frames_to_time_def default_transcriber_def)
  moreover have "\<not> (1 / 10) * frame_rate default_transcriber \<le> of_int (1 - 0)"
    by (simp add: default_frame_rate)
  ultimately show ?thesis
    unfolding example_frame_notes example_estimate_offset by simp
qed

text \<open>
  C4, amended. When the decay scan finds a frame, the offset frame is that frame as found
  (the first frame of the scan window where the bin is below -50 dB, after the onset and
  less than two seconds of frames later); it is not extended. When the scan finds none,
  the offset frame is the onset frame plus the frames of half a second. With a frame rate
  of at least 2 the offset frame is at least one frame after the onset frame.
\<close>

theorem offset_frame_as_found:
  "(decay_scan C_db p (scan_window t C_db f) = Some cf \<longrightarrow>
      estimate_offset t C_db f p = cf \<and> f + 1 \<le> cf \<and> cf < f + py_int (frame_rate t * 2)
      \<and> db_at C_db p cf < - 50
      \<and> (\<exists>pre post. scan_window t C_db f = pre @ cf # post \<and>
            (\<forall>g \<in> set pre. \<not> db_at C_db p g < - 50)))
   \<and> (decay_scan C_db p (scan_window t C_db f) = None \<longrightarrow>
      estimate_offset t C_db f p = f + py_int (frame_rate t * (1 / 2)))
   \<and> (2 \<le> frame_rate t \<longrightarrow> 1 \<le> estimate_offset t C_db f p - f)"
proof (intro conjI impI)
  assume found: "decay_scan C_db p (scan_window t C_db f) = Some cf"
  then show "estimate_offset t C_db f p = cf" by (simp add: estimate_offset_def)
  from found have "cf \<in> set (scan_window t C_db f)" by (rule decay_scan_mem)
  then show "f + 1 \<le> cf" and "cf < f + py_int (frame_rate t * 2)"
    by (simp_all add: scan_window_bounds)
  from decay_scan_first [OF found] show "db_at C_db p cf < - 50" by blast
  from decay_scan_first [OF found]
  show "\<exists>pre post. scan_window t C_db f = pre @ cf # post \<and>
            (\<forall>g \<in> set pre. \<not> db_at C_db p g < - 50)" by blast
next
  assume "decay_scan C_db p (scan_window t C_db f) = None"
  then show "estimate_offset t C_db f p = f + py_int (frame_rate t * (1 / 2))"
    by (simp add: estimate_offset_def)
next
  assume "2 \<le> frame_rate t"
  from estimate_offset_after [OF this, of f C_db p]
  show "1 \<le> estimate_offset t C_db f p - f" by simp
qed

theorem offset_frame_as_found_witness:
  "decay_scan example_C_db 1 (scan_window default_transcriber example_C_db 0) = Some 1
   \<and> estimate_offset default_transcriber example_C_db 0 1 = 1
   \<and> decay_scan example_C_db 1 (scan_window default_transcriber example_C_db 2) = None
   \<and> estimate_offset default_transcriber example_C_db 2 1 = 23
   \<and> 2 \<le> frame_rate default_transcriber
   \<and> 1 \<le> estimate_offset default_transcriber example_C_db 0 1 - 0"
proof -
  have none: "decay_scan example_C_db 1 (scan_window default_transcriber example_C_db 2) = None"
    unfolding example_C_db_def default_transcriber_def by code_simp
  have rate: "2 \<le> frame_rate default_transcriber" by (simp add: default_frame_rate)
  have half: "py_int (frame_rate default_transcriber * (1 / 2)) = 21"
    by (simp add: default_frame_rate py_int_def) linarith
  from offset_frame_as_found [of example_C_db 1 default_transcriber 0 1] example_decay_scan rate
  have "estimate_offset default_transcriber example_C_db 0 1 = 1"
    and "1 \<le> estimate_offset default_transcriber example_C_db 0 1 - 0"
    by simp_all
  moreover from offset_frame_as_found [of example_C_db 1 default_transcriber 2 0] none half
  have "estimate_offset default_transcriber example_C_db 2 1 = 23" by simp
  ultimately show ?thesis using example_decay_scan none rate by blast
qed


lemma transcribe_Inr:
  assumes "transcribe t C_db fs = Inr out"
  shows "\<exists>cands. extract_notes t C_db fs = Inr cands \<and>
           cands = concat (map (frame_notes t C_db) (filter (\<lambda>f. f < int (shape1 C_db)) fs)) \<and>
           out = filter_overlapping [] (sort_key onset_time_s cands)"
proof -
  from assms obtain cands where ex: "extract_notes t C_db fs = Inr cands"
    and out: "out = filter_overlapping [] (sort_key onset_time_s cands)"
    by (auto simp: transcribe_def split: sum.splits)
  from extract_notes_concat [OF ex] ex out show ?thesis by blast
qed

lemma transcribe_notes_from_frames:
  assumes "transcribe t C_db fs = Inr out" and "n \<in> set out"
  shows "\<exists>f \<in> set fs. n \<in> set (frame_notes t C_db f)"
proof -
  from transcribe_Inr [OF assms(1)] obtain cands where
    cands: "cands = concat (map (frame_notes t C_db) (filter (\<lambda>f. f < int (shape1 C_db)) fs))"
    and out: "out = filter_overlapping [] (sort_key onset_time_s cands)" by blast
  from assms(2) out filter_overlapping_set [of "[]" "sort_key onset_time_s cands"]
  have "n \<in> set cands" by auto
  with cands show ?thesis by auto
qed

lemma frame_notes_positive:
  assumes "0 < hop_length t" and "0 < sample_rate t" and "2 \<le> frame_rate t"
    and "n \<in> set (frame_notes t C_db f)"
  shows "onset_time_s n < offset_time_s n"
proof -
  from frame_notes_fields [OF assms(4)] obtain p where
    on: "onset_time_s n = frames_to_time t f" and
    off: "offset_time_s n = frames_to_time t (estimate_offset t C_db f p)" by blast
  from estimate_offset_after [OF assms(3), of f C_db p] have "f < estimate_offset t C_db f p"
    by simp
  from frames_to_time_less [OF assms(1,2) this] on off show ?thesis by simp
qed

text \<open>
  C10. With a positive hop length and sample rate and a frame rate of at least 2 frames
  per second (the default is 22050 / 512), every note that \<open>transcribe\<close> returns ends
  strictly after it starts.
\<close>

theorem positive_duration:
  assumes "0 < hop_length t" and "0 < sample_rate t" and "2 \<le> frame_rate t"
    and "transcribe t C_db fs = Inr out" and "n \<in> set out"
  shows "onset_time_s n < offset_time_s n"
proof -
  from transcribe_notes_from_frames [OF assms(4,5)] obtain f where
    "n \<in> set (frame_notes t C_db f)" by blast
  from frame_notes_positive [OF assms(1,2,3) this] show ?thesis .
qed

lemma example_notes_transcription:
  "transcribe default_transcriber example_C_db [0, 2, 0] = Inr [example_note_0, example_note_2]"
  unfolding example_C_db_def default_transcriber_def example_note_0_def example_note_2_def
  by code_simp

theorem positive_duration_witness:
  "0 < hop_length default_transcriber \<and> 0 < sample_rate default_transcriber
   \<and> 2 \<le> frame_rate default_transcriber
   \<and> transcribe default_transcriber example_C_db [0, 2, 0] = Inr [example_note_0, example_note_2]
   \<and> onset_time_s example_note_2 < offset_time_s example_note_2"
proof -
  have hop: "0 < hop_length default_transcriber" and sr: "0 < sample_rate default_transcriber"
    and rate: "2 \<le> frame_rate default_transcriber"
    by (simp_all add: default_transcriber_def)
  have "example_note_2 \<in> set [example_note_0, example_note_2]" by simp
  from positive_duration [OF hop sr rate example_notes_transcription this]
  have "onset_time_s example_note_2 < offset_time_s example_note_2" .
  with hop sr rate example_notes_transcription show ?thesis by blast
qed

lemma sorted_wrt_conj:
  "sorted_wrt P xs \<Longrightarrow> sorted_wrt Q xs \<Longrightarrow> sorted_wrt (\<lambda>a b. P a b \<and> Q a b) xs"
  by (induction xs) auto

lemma transcribe_sorted:
  assumes "transcribe t C_db fs = Inr out"
  shows "sorted (map onset_time_s out)"
proof -
  from transcribe_Inr [OF assms] obtain cands where
    out: "out = filter_overlapping [] (sort_key onset_time_s cands)" by blast
  have "sorted_wrt (\<lambda>a b. onset_time_s a \<le> onset_time_s b) ([] @ sort_key onset_time_s cands)"
    using sorted_sort_key [of onset_time_s cands] by (simp add: sorted_map)
  from filter_overlapping_sorted_wrt [OF this] out show ?thesis by (simp add: sorted_map)
qed

text \<open>
  C2. In every list of notes that \<open>transcribe\<close> returns, two notes at different
  positions with the same pitch have intervals \<open>[onset, offset)\<close> that do not overlap;
  the list is the overlap filter run on the candidates sorted by onset time; and the
  filter drops a candidate iff a note kept so far has the same pitch and an interval
  that holds the candidate's onset.
\<close>

theorem overlap_invariant:
  assumes "transcribe t C_db fs = Inr out"
  shows "(\<forall>i j. i < length out \<and> j < length out \<and> i \<noteq> j \<and>
            pitch_midi (out ! i) = pitch_midi (out ! j) \<longrightarrow>
            \<not> intervals_overlap (out ! i) (out ! j))
   \<and> (\<exists>cands. extract_notes t C_db fs = Inr cands \<and>
         sorted (map onset_time_s (sort_key onset_time_s cands)) \<and>
         out = filter_overlapping [] (sort_key onset_time_s cands))
   \<and> (\<forall>kept n rest. filter_overlapping kept (n # rest) =
         (if \<exists>e \<in> set kept. pitch_midi e = pitch_midi n \<and>
               onset_time_s e \<le> onset_time_s n \<and> onset_time_s n < offset_time_s e
          then filter_overlapping kept rest
          else filter_overlapping (kept @ [n]) rest))"
proof (intro conjI)
  let ?ok = "\<lambda>a b. \<not> (pitch_midi a = pitch_midi b \<and>
      onset_time_s a \<le> onset_time_s b \<and> onset_time_s b < offset_time_s a)"
  from transcribe_Inr [OF assms] obtain cands where
    ex: "extract_notes t C_db fs = Inr cands" and
    out: "out = filter_overlapping [] (sort_key onset_time_s cands)" by blast
  have "sorted_wrt ?ok []" by simp
  from filter_overlapping_no_conflict [OF this] out have "sorted_wrt ?ok out" by simp
  moreover from transcribe_sorted [OF assms]
  have "sorted_wrt (\<lambda>a b. onset_time_s a \<le> onset_time_s b) out" by (simp add: sorted_map)
  ultimately have "sorted_wrt (\<lambda>a b. ?ok a b \<and> onset_time_s a \<le> onset_time_s b) out"
    by (rule sorted_wrt_conj)
  then have apart: "sorted_wrt (\<lambda>a b. pitch_midi a = pitch_midi b \<longrightarrow>
      \<not> intervals_overlap a b \<and> \<not> intervals_overlap b a) out"
    by (rule sorted_wrt_mono_rel [rotated]) (auto simp: intervals_overlap_def)
  show "\<forall>i j. i < length out \<and> j < length out \<and> i \<noteq> j \<and>
            pitch_midi (out ! i) = pitch_midi (out ! j) \<longrightarrow>
            \<not> intervals_overlap (out ! i) (out ! j)"
  proof (intro allI impI)
    fix i j
    assume h: "i < length out \<and> j < length out \<and> i \<noteq> j \<and>
        pitch_midi (out ! i) = pitch_midi (out ! j)"
    then consider "i < j" | "j < i" by linarith
    then show "\<not> intervals_overlap (out ! i) (out ! j)"
    proof cases
      case 1
      with h apart show ?thesis by (simp add: sorted_wrt_iff_nth_less)
    next
      case 2
      with h apart show ?thesis by (simp add: sorted_wrt_iff_nth_less)
    qed
  qed
  from ex out sorted_sort_key [of onset_time_s cands]
  show "\<exists>cands. extract_notes t C_db fs = Inr cands \<and>
         sorted (map onset_time_s (sort_key onset_time_s cands)) \<and>
         out = filter_overlapping [] (sort_key onset_time_s cands)" by blast
  show "\<forall>kept n rest. filter_overlapping kept (n # rest) =
         (if \<exists>e \<in> set kept. pitch_midi e = pitch_midi n \<and>
               onset_time_s e \<le> onset_time_s n \<and> onset_time_s n < offset_time_s e
          then filter_overlapping kept rest
          else filter_overlapping (kept @ [n]) rest)"
    by (auto simp: overlaps_existing_iff)
qed


theorem overlap_invariant_witness:
  "transcribe default_transcriber example_C_db [0, 2, 0] = Inr [example_note_0, example_note_2]
   \<and> pitch_midi example_note_0 = pitch_midi example_note_2
   \<and> \<not> intervals_overlap example_note_0 example_note_2
   \<and> filter_overlapping [example_note_0] [example_note_2, example_note_0] =
       filter_overlapping [example_note_0, example_note_2] [example_note_0]
   \<and> filter_overlapping [example_note_0, example_note_2] [example_note_0] =
       filter_overlapping [example_note_0, example_note_2] []"
proof -
  note inv = overlap_invariant [OF example_notes_transcription]
  have same: "pitch_midi example_note_0 = pitch_midi example_note_2"
    by (simp add: example_note_0_def example_note_2_def)
  from inv have "(0::nat) < length [example_note_0, example_note_2] \<and>
      (1::nat) < length [example_note_0, example_note_2] \<and> (0::nat) \<noteq> 1 \<and>
      pitch_midi ([example_note_0, example_note_2] ! 0) = pitch_midi ([example_note_0, example_note_2] ! 1)
      \<longrightarrow> \<not> intervals_overlap ([example_note_0, example_note_2] ! 0) ([example_note_0, example_note_2] ! 1)"
    by blast
  with same have apart: "\<not> intervals_overlap example_note_0 example_note_2" by simp
  from inv have step: "filter_overlapping kept (n # rest) =
         (if \<exists>e \<in> set kept. pitch_midi e = pitch_midi n \<and>
               onset_time_s e \<le> onset_time_s n \<and> onset_time_s n < offset_time_s e
          then filter_overlapping kept rest
          else filter_overlapping (kept @ [n]) rest)" for kept n rest
    by blast
  have keep: "filter_overlapping [example_note_0] [example_note_2, example_note_0] =
       filter_overlapping [example_note_0, example_note_2] [example_note_0]"
    by (subst step) (simp add: example_note_0_def example_note_2_def)
  have drop: "filter_overlapping [example_note_0, example_note_2] [example_note_0] =
       filter_overlapping [example_note_0, example_note_2] []"
    by (subst step) (simp add: example_note_0_def example_note_2_def)
  from example_notes_transcription same apart keep drop show ?thesis by blast
qed















end
